theory Spec2Isabelle
  imports Main
begin

section \<open>Strings and characters\<close>

text \<open>
  The script \<^verbatim>\<open>src/dbMap.ts\<close> rewrites a Prisma schema text line by line. Strings are
  modelled as \<^typ>\<open>string\<close>; the model is exact for ASCII text: \<^verbatim>\<open>toLowerCase\<close> lowers
  \<^verbatim>\<open>A-Z\<close>, \<^verbatim>\<open>\s\<close> and \<^verbatim>\<open>trim\<close> know the six ASCII white-space characters, \<^verbatim>\<open>\w\<close> is
  \<^verbatim>\<open>[A-Za-z0-9_]\<close>, and the dot of a regular expression refuses the line terminators
  LF and CR.
\<close>

definition dq :: char where
  "dq = CHR 0x22"

definition sq :: char where
  "sq = CHR 0x27"

definition backtick :: char where
  "backtick = CHR 0x60"

definition nl :: char where
  "nl = CHR 0x0A"

definition is_upper :: "char \<Rightarrow> bool" where
  "is_upper c = (c \<in> set ''ABCDEFGHIJKLMNOPQRSTUVWXYZ'')"

definition is_lower :: "char \<Rightarrow> bool" where
  "is_lower c = (c \<in> set ''abcdefghijklmnopqrstuvwxyz'')"

definition is_digit :: "char \<Rightarrow> bool" where
  "is_digit c = (c \<in> set ''0123456789'')"

definition is_word :: "char \<Rightarrow> bool" where
  "is_word c = (is_lower c \<or> is_upper c \<or> is_digit c \<or> c = CHR ''_'')"

definition is_space :: "char \<Rightarrow> bool" where
  "is_space c = (c \<in> set [CHR '' '', CHR 0x09, CHR 0x0A, CHR 0x0B, CHR 0x0C, CHR 0x0D])"

definition is_line_term :: "char \<Rightarrow> bool" where
  "is_line_term c = (c = CHR 0x0A \<or> c = CHR 0x0D)"

definition is_quote :: "char \<Rightarrow> bool" where
  "is_quote c = (c = dq \<or> c = sq)"

definition lower_char :: "char \<Rightarrow> char" where
  "lower_char c =
     (case map_of (zip ''ABCDEFGHIJKLMNOPQRSTUVWXYZ'' ''abcdefghijklmnopqrstuvwxyz'') c of
        Some d \<Rightarrow> d
      | None \<Rightarrow> c)"

definition upper_char :: "char \<Rightarrow> char" where
  "upper_char c =
     (case map_of (zip ''abcdefghijklmnopqrstuvwxyz'' ''ABCDEFGHIJKLMNOPQRSTUVWXYZ'') c of
        Some d \<Rightarrow> d
      | None \<Rightarrow> c)"

definition toLowerCase :: "string \<Rightarrow> string" where
  "toLowerCase s = map lower_char s"

definition digit_val :: "char \<Rightarrow> nat" where
  "digit_val c =
     (case map_of (zip ''0123456789'' [0, 1, 2, 3, 4, 5, 6, 7, 8, 9]) c of
        Some n \<Rightarrow> n
      | None \<Rightarrow> 0)"

definition trimEnd :: "string \<Rightarrow> string" where
  "trimEnd s = rev (dropWhile is_space (rev s))"

definition trim :: "string \<Rightarrow> string" where
  "trim s = dropWhile is_space (trimEnd s)"

text \<open>\<^verbatim>\<open>strip_prefix p s\<close> is what follows \<^verbatim>\<open>p\<close> in \<^verbatim>\<open>s\<close> when \<^verbatim>\<open>s\<close> starts with \<^verbatim>\<open>p\<close>.\<close>

fun strip_prefix :: "string \<Rightarrow> string \<Rightarrow> string option" where
  "strip_prefix [] s = Some s"
| "strip_prefix (p # ps) [] = None"
| "strip_prefix (p # ps) (c # cs) = (if p = c then strip_prefix ps cs else None)"

definition startsWith :: "string \<Rightarrow> string \<Rightarrow> bool" where
  "startsWith s p = (strip_prefix p s \<noteq> None)"

text \<open>
  An unanchored regular expression is tried at every position from the left:
  \<^verbatim>\<open>search m s\<close> gives the text before the first position where the anchored matcher
  \<^verbatim>\<open>m\<close> succeeds, and its result there.
\<close>

fun search :: "(string \<Rightarrow> 'a option) \<Rightarrow> string \<Rightarrow> (string \<times> 'a) option" where
  "search m [] = (case m [] of Some r \<Rightarrow> Some ([], r) | None \<Rightarrow> None)"
| "search m (c # cs) =
     (case m (c # cs) of
        Some r \<Rightarrow> Some ([], r)
      | None \<Rightarrow> (case search m cs of Some (pre, r) \<Rightarrow> Some (c # pre, r) | None \<Rightarrow> None))"

definition find_sub :: "string \<Rightarrow> string \<Rightarrow> (string \<times> string) option" where
  "find_sub pat s = search (strip_prefix pat) s"

definition includes_str :: "string \<Rightarrow> string \<Rightarrow> bool" where
  "includes_str s pat = (find_sub pat s \<noteq> None)"

fun split_nl :: "string \<Rightarrow> string list" where
  "split_nl [] = [[]]"
| "split_nl (c # cs) =
     (if c = nl then [] # split_nl cs
      else (case split_nl cs of [] \<Rightarrow> [[c]] | l # ls \<Rightarrow> (c # l) # ls))"

fun join_nl :: "string list \<Rightarrow> string" where
  "join_nl [] = []"
| "join_nl [l] = l"
| "join_nl (l # m # ls) = l @ nl # join_nl (m # ls)"

section \<open>Replacement templates\<close>

text \<open>
  \<^verbatim>\<open>String.prototype.replace\<close> with a string as replacement expands the patterns of
  that string (ECMAScript's GetSubstitution): \<^verbatim>\<open>$$\<close> is a dollar, \<^verbatim>\<open>$&\<close> the matched
  text, \<^verbatim>\<open>$`\<close> the text before it, \<^verbatim>\<open>$'\<close> the text after it, \<^verbatim>\<open>$n\<close> and \<^verbatim>\<open>$nn\<close> a
  capture group when the pattern has that many (a two-digit reference beyond the groups
  is read as a one-digit reference followed by a digit); any other dollar stands for
  itself. The captures of the patterns here always take part in the match.
\<close>

fun get_substitution :: "string \<Rightarrow> string \<Rightarrow> string \<Rightarrow> string list \<Rightarrow> string \<Rightarrow> string" where
  "get_substitution matched pre post caps [] = []"
| "get_substitution matched pre post caps [c] = [c]"
| "get_substitution matched pre post caps (c # d # t) =
     (if c \<noteq> CHR ''$'' then c # get_substitution matched pre post caps (d # t)
      else if d = CHR ''$'' then CHR ''$'' # get_substitution matched pre post caps t
      else if d = CHR ''&'' then matched @ get_substitution matched pre post caps t
      else if d = backtick then pre @ get_substitution matched pre post caps t
      else if d = sq then post @ get_substitution matched pre post caps t
      else if is_digit d then
        (case t of
           [] \<Rightarrow>
             (if 1 \<le> digit_val d \<and> digit_val d \<le> length caps
              then caps ! (digit_val d - 1) else [c, d])
         | e # t' \<Rightarrow>
             (if is_digit e \<and> 10 * digit_val d + digit_val e \<le> length caps then
                (if 1 \<le> 10 * digit_val d + digit_val e
                 then caps ! (10 * digit_val d + digit_val e - 1)
                        @ get_substitution matched pre post caps t'
                 else c # d # e # get_substitution matched pre post caps t')
              else if 1 \<le> digit_val d \<and> digit_val d \<le> length caps
                then caps ! (digit_val d - 1) @ get_substitution matched pre post caps (e # t')
              else c # d # get_substitution matched pre post caps (e # t')))
      else c # get_substitution matched pre post caps (d # t))"

text \<open>
  \<^verbatim>\<open>s.replace(pat, repl)\<close> for a string pattern, and for a regular expression that is
  a literal text without groups: the first occurrence is replaced.
\<close>

definition replace_str :: "string \<Rightarrow> string \<Rightarrow> string \<Rightarrow> string" where
  "replace_str s pat repl =
     (case find_sub pat s of
        None \<Rightarrow> s
      | Some (pre, post) \<Rightarrow> pre @ get_substitution pat pre post [] repl @ post)"

section \<open>The imported name transformers\<close>

text \<open>
  \<^verbatim>\<open>singular\<close> (package pluralize), \<^verbatim>\<open>pascalCase\<close> and \<^verbatim>\<open>camelCase\<close> (package
  change-case) are imported by the script; their code is not part of the repository.
  The model takes them as a parameter.
\<close>

record naming =
  singular :: "string \<Rightarrow> string"
  pascalCase :: "string \<Rightarrow> string"
  camelCase :: "string \<Rightarrow> string"

definition shouldTransform :: "string \<Rightarrow> bool" where
  "shouldTransform str = (str = toLowerCase str)"

definition transformTableName :: "naming \<Rightarrow> string \<Rightarrow> string" where
  "transformTableName nm tableName = pascalCase nm (singular nm tableName)"

text \<open>
  Modelled from the spec: the name transformers of the packages, which are missing from
  the source. Words are the maximal runs of letters and digits (split on delimiters);
  camel style lowers the first word and capitalises the others, capitalised-word style
  capitalises every word; singularisation strips a plural suffix (trailing \<^verbatim>\<open>ies\<close> to
  \<^verbatim>\<open>y\<close>, a trailing \<^verbatim>\<open>s\<close> that does not follow an \<^verbatim>\<open>s\<close>). They serve as the concrete
  instance at which the parametric model is evaluated.
\<close>

fun name_words :: "string \<Rightarrow> string \<Rightarrow> string list" where
  "name_words [] [] = []"
| "name_words (a # acc) [] = [rev (a # acc)]"
| "name_words acc (c # cs) =
     (if is_lower c \<or> is_upper c \<or> is_digit c then name_words (c # acc) cs
      else if acc = [] then name_words [] cs
      else rev acc # name_words [] cs)"

definition capitalize :: "string \<Rightarrow> string" where
  "capitalize w = (case w of [] \<Rightarrow> [] | c # cs \<Rightarrow> upper_char c # map lower_char cs)"

definition spec_pascalCase :: "string \<Rightarrow> string" where
  "spec_pascalCase s = concat (map capitalize (name_words [] s))"

definition spec_camelCase :: "string \<Rightarrow> string" where
  "spec_camelCase s =
     (case name_words [] s of
        [] \<Rightarrow> []
      | w # ws \<Rightarrow> map lower_char w @ concat (map capitalize ws))"

definition spec_singular :: "string \<Rightarrow> string" where
  "spec_singular s =
     (case rev s of
        CHR ''s'' # CHR ''e'' # CHR ''i'' # r \<Rightarrow> rev (CHR ''y'' # r)
      | CHR ''s'' # CHR ''s'' # r \<Rightarrow> s
      | CHR ''s'' # r \<Rightarrow> rev r
      | _ \<Rightarrow> s)"

definition spec_naming :: naming where
  "spec_naming =
     \<lparr>singular = spec_singular, pascalCase = spec_pascalCase, camelCase = spec_camelCase\<rparr>"

section \<open>The catalog maps\<close>

text \<open>
  A JavaScript \<^verbatim>\<open>Map\<close> keeps its keys in insertion order; \<^verbatim>\<open>set\<close> on a key it has
  replaces the value in place. The column map is keyed by the text
  \<^verbatim>\<open>table.column\<close>, as in the source.
\<close>

type_synonym smap = "(string \<times> string) list"

fun map_set :: "string \<Rightarrow> string \<Rightarrow> smap \<Rightarrow> smap" where
  "map_set k v [] = [(k, v)]"
| "map_set k v ((k', v') # m) = (if k' = k then (k, v) # m else (k', v') # map_set k v m)"

definition column_key :: "string \<Rightarrow> string \<Rightarrow> string" where
  "column_key table col = table @ ''.'' @ col"

text \<open>The callbacks of the two \<^verbatim>\<open>forEach\<close> loops, and the loops.\<close>

definition add_table :: "naming \<Rightarrow> smap \<Rightarrow> string \<Rightarrow> smap" where
  "add_table nm m t =
     (if shouldTransform t then map_set t (transformTableName nm t) m else m)"

definition add_column :: "naming \<Rightarrow> smap \<Rightarrow> string \<times> string \<Rightarrow> smap" where
  "add_column nm m tc =
     (if shouldTransform (snd tc)
      then map_set (column_key (fst tc) (snd tc)) (camelCase nm (snd tc)) m else m)"

definition build_table_map :: "naming \<Rightarrow> string list \<Rightarrow> smap" where
  "build_table_map nm tables = foldl (add_table nm) [] tables"

definition build_column_map :: "naming \<Rightarrow> (string \<times> string) list \<Rightarrow> smap" where
  "build_column_map nm columns = foldl (add_column nm) [] columns"

text \<open>\<^verbatim>\<open>columnMap.get(key) || fallback\<close>: a missing key and an empty name both fall back.\<close>

definition get_or :: "smap \<Rightarrow> string \<Rightarrow> string \<Rightarrow> string" where
  "get_or m k fallback =
     (case map_of m k of None \<Rightarrow> fallback | Some v \<Rightarrow> if v = [] then fallback else v)"

section \<open>The regular expressions of the script\<close>

text \<open>
  Each matcher follows the one way its expression can match: the classes that meet in it
  are disjoint, so a greedy run is always maximal.
  \<^verbatim>\<open>/^model\s+(\w+)\s+{/\<close> on the trimmed line gives the model name.
\<close>

definition model_match :: "string \<Rightarrow> string option" where
  "model_match s =
     (case strip_prefix ''model'' s of
        None \<Rightarrow> None
      | Some r1 \<Rightarrow>
          if takeWhile is_space r1 = [] then None
          else if takeWhile is_word (dropWhile is_space r1) = [] then None
          else if takeWhile is_space (dropWhile is_word (dropWhile is_space r1)) = [] then None
          else (case dropWhile is_space (dropWhile is_word (dropWhile is_space r1)) of
                  [] \<Rightarrow> None
                | c # _ \<Rightarrow> if c = CHR ''{'' then Some (takeWhile is_word (dropWhile is_space r1))
                           else None))"

text \<open>\<^verbatim>\<open>/@map\s*\(\s*["']([^"']+)["']\s*\)/\<close>, anchored at one position.\<close>

definition db_name_at :: "string \<Rightarrow> string option" where
  "db_name_at s =
     (case strip_prefix ''@map'' s of
        None \<Rightarrow> None
      | Some r1 \<Rightarrow>
          (case dropWhile is_space r1 of
             [] \<Rightarrow> None
           | p # r2 \<Rightarrow>
               if p \<noteq> CHR ''('' then None
               else (case dropWhile is_space r2 of
                       [] \<Rightarrow> None
                     | q # r3 \<Rightarrow>
                         if \<not> is_quote q then None
                         else if takeWhile (\<lambda>c. \<not> is_quote c) r3 = [] then None
                         else (case dropWhile (\<lambda>c. \<not> is_quote c) r3 of
                                 [] \<Rightarrow> None
                               | q' # r4 \<Rightarrow>
                                   (case dropWhile is_space r4 of
                                      [] \<Rightarrow> None
                                    | e # _ \<Rightarrow>
                                        if e = CHR '')''
                                        then Some (takeWhile (\<lambda>c. \<not> is_quote c) r3)
                                        else None)))))"

definition db_name_match :: "string \<Rightarrow> string option" where
  "db_name_match s = map_option snd (search db_name_at s)"

text \<open>\<^verbatim>\<open>/^@@(index|unique|id|fulltext)/\<close> on the trimmed line.\<close>

definition directive_gate :: "string \<Rightarrow> bool" where
  "directive_gate s =
     (startsWith s ''@@index'' \<or> startsWith s ''@@unique'' \<or> startsWith s ''@@id''
      \<or> startsWith s ''@@fulltext'')"

text \<open>
  \<^verbatim>\<open>/@@(?:index|unique|id|fulltext)\s*\(\s*\[(.*?)\]/\<close>, anchored at one position: the
  lazy group is the text up to the first closing bracket, and the dot cannot pass a line
  terminator.
\<close>

definition directive_name :: "string \<Rightarrow> string option" where
  "directive_name s =
     (case strip_prefix ''index'' s of
        Some r \<Rightarrow> Some r
      | None \<Rightarrow>
          (case strip_prefix ''unique'' s of
             Some r \<Rightarrow> Some r
           | None \<Rightarrow>
               (case strip_prefix ''id'' s of
                  Some r \<Rightarrow> Some r
                | None \<Rightarrow> strip_prefix ''fulltext'' s)))"

definition directive_at :: "string \<Rightarrow> string option" where
  "directive_at s =
     (case strip_prefix ''@@'' s of
        None \<Rightarrow> None
      | Some r0 \<Rightarrow>
          (case directive_name r0 of
             None \<Rightarrow> None
           | Some r1 \<Rightarrow>
               (case dropWhile is_space r1 of
                  [] \<Rightarrow> None
                | p # r2 \<Rightarrow>
                    if p \<noteq> CHR ''('' then None
                    else (case dropWhile is_space r2 of
                            [] \<Rightarrow> None
                          | b # r3 \<Rightarrow>
                              if b \<noteq> CHR ''['' then None
                              else (case dropWhile (\<lambda>c. c \<noteq> CHR '']'' \<and> \<not> is_line_term c) r3 of
                                      [] \<Rightarrow> None
                                    | e # _ \<Rightarrow>
                                        if e = CHR '']''
                                        then Some (takeWhile
                                               (\<lambda>c. c \<noteq> CHR '']'' \<and> \<not> is_line_term c) r3)
                                        else None)))))"

definition directive_match :: "string \<Rightarrow> string option" where
  "directive_match line = map_option snd (search directive_at line)"

text \<open>
  \<^verbatim>\<open>/(\w+)(\([^)]*\))?/g\<close> run over the field list with \<^verbatim>\<open>exec\<close>: the tokens from
  left to right, each a name with its parameter suffix (empty when there is none, or when
  the parenthesis is never closed).
\<close>

definition match_params :: "string \<Rightarrow> (string \<times> string) option" where
  "match_params r =
     (case r of
        [] \<Rightarrow> None
      | p # t \<Rightarrow>
          if p \<noteq> CHR ''('' then None
          else (case dropWhile (\<lambda>c. c \<noteq> CHR '')'') t of
                  [] \<Rightarrow> None
                | e # r' \<Rightarrow> Some (p # takeWhile (\<lambda>c. c \<noteq> CHR '')'') t @ [e], r')))"

lemma match_params_length: "match_params r = Some (p, r') \<Longrightarrow> length r' < length r"
proof -
  assume a: "match_params r = Some (p, r')"
  then obtain t where r: "r = CHR ''('' # t"
    by (cases r) (auto simp: match_params_def split: if_splits)
  from a r obtain e where "dropWhile (\<lambda>c. c \<noteq> CHR '')'') t = e # r'"
    by (auto simp: match_params_def split: list.splits)
  then have "length (e # r') \<le> length t"
    by (metis length_dropWhile_le)
  with r show ?thesis by simp
qed

function scan_fields :: "string \<Rightarrow> (string \<times> string) list" where
  "scan_fields [] = []"
| "scan_fields (c # cs) =
     (if is_word c then
        (case match_params (dropWhile is_word cs) of
           Some (p, r') \<Rightarrow> (c # takeWhile is_word cs, p) # scan_fields r'
         | None \<Rightarrow> (c # takeWhile is_word cs, []) # scan_fields (dropWhile is_word cs))
      else scan_fields cs)"
  by pat_completeness auto
termination
proof (relation "measure length")
  show "wf (measure length)" by simp
next
  fix c cs x2 x y
  assume "match_params (dropWhile is_word cs) = Some x2" and "(x, y) = x2"
  then have "length y < length (dropWhile is_word cs)"
    using match_params_length [of "dropWhile is_word cs" x y] by simp
  also have "\<dots> \<le> length cs" by (rule length_dropWhile_le)
  finally show "(y, c # cs) \<in> measure length" by simp
next
  fix c :: char and cs :: string
  have "length (dropWhile is_word cs) \<le> length cs" by (rule length_dropWhile_le)
  then show "(dropWhile is_word cs, c # cs) \<in> measure length" by simp
next
  fix c :: char and cs :: string
  show "(cs, c # cs) \<in> measure length" by simp
qed

text \<open>
  \<^verbatim>\<open>/^(\w+)\s+(.+)/\<close> on the trimmed line: the field name and the rest of the line up to
  a line terminator. The argument is trimmed, so the white space after the name is
  followed by a character that is no white space.
\<close>

definition field_match :: "string \<Rightarrow> (string \<times> string) option" where
  "field_match s =
     (if takeWhile is_word s = [] then None
      else if takeWhile is_space (dropWhile is_word s) = [] then None
      else if takeWhile (\<lambda>c. \<not> is_line_term c) (dropWhile is_space (dropWhile is_word s)) = []
        then None
      else Some (takeWhile is_word s,
             takeWhile (\<lambda>c. \<not> is_line_term c) (dropWhile is_space (dropWhile is_word s))))"

text \<open>
  \<^verbatim>\<open>line.replace(new RegExp(`^(\\s*)${fieldName}\\s+`), `$1${mappedFieldName} `)\<close>: the
  match is the indentation, the field name and the white space after it.
\<close>

definition replace_field :: "string \<Rightarrow> string \<Rightarrow> string \<Rightarrow> string" where
  "replace_field line fieldName mappedFieldName =
     (case strip_prefix fieldName (dropWhile is_space line) of
        None \<Rightarrow> line
      | Some r \<Rightarrow>
          if takeWhile is_space r = [] then line
          else get_substitution (takeWhile is_space line @ fieldName @ takeWhile is_space r)
                 [] (dropWhile is_space r) [takeWhile is_space line]
                 (''$1'' @ mappedFieldName @ '' '')
               @ dropWhile is_space r)"

section \<open>The directive field rewriter\<close>

fun rewrite_fields :: "naming \<Rightarrow> smap \<Rightarrow> string \<Rightarrow> (string \<times> string) list \<Rightarrow> string \<Rightarrow> string" where
  "rewrite_fields nm columnMap currentTable [] transformedFieldsStr = transformedFieldsStr"
| "rewrite_fields nm columnMap currentTable ((fieldName, fieldParams) # toks) transformedFieldsStr =
     (if shouldTransform fieldName then
        rewrite_fields nm columnMap currentTable toks
          (replace_str transformedFieldsStr (fieldName @ fieldParams)
             (get_or columnMap (column_key currentTable fieldName) (camelCase nm fieldName)
                @ fieldParams))
      else rewrite_fields nm columnMap currentTable toks transformedFieldsStr)"

definition transformDirectiveFields :: "naming \<Rightarrow> string \<Rightarrow> smap \<Rightarrow> string \<Rightarrow> string" where
  "transformDirectiveFields nm line columnMap currentTable =
     (case directive_match line of
        None \<Rightarrow> line
      | Some fieldsStr \<Rightarrow>
          replace_str line (''['' @ fieldsStr @ '']'')
            (''['' @ rewrite_fields nm columnMap currentTable (scan_fields fieldsStr) fieldsStr
               @ '']''))"

section \<open>The schema block walker\<close>

record cursor =
  currentModel :: "string option"
  currentTable :: "string option"
  inModelBlock :: bool
  tableHasMap :: bool

definition init_cursor :: cursor where
  "init_cursor =
     \<lparr>currentModel = None, currentTable = None, inModelBlock = False, tableHasMap = False\<rparr>"

text \<open>A string or null used as a condition: null and the empty string are false.\<close>

definition truthy :: "string option \<Rightarrow> bool" where
  "truthy v = (case v of None \<Rightarrow> False | Some s \<Rightarrow> s \<noteq> [])"

text \<open>
  The look-ahead of a model header over the lines after it, up to a line whose trimmed
  text starts with a closing brace: \<^verbatim>\<open>None\<close> when no line contains \<^verbatim>\<open>@@map(\<close>, else the
  name the first such line gives (if it gives one).
\<close>

fun lookahead :: "string list \<Rightarrow> string option option" where
  "lookahead [] = None"
| "lookahead (l # ls) =
     (if startsWith (trim l) ''}'' then None
      else if includes_str l ''@@map('' then Some (db_name_match l)
      else lookahead ls)"

text \<open>
  The loop over the entries of the table map: the table name and the header line of the
  first entry that matches the model name.
\<close>

fun find_table :: "naming \<Rightarrow> smap \<Rightarrow> string \<Rightarrow> (string \<times> string) option" where
  "find_table nm [] model = None"
| "find_table nm ((tableName, transformedName) # entries) model =
     (if transformedName = model
        then Some (tableName, ''model '' @ transformedName @ '' {'')
      else if model \<noteq> [] \<and>
              (tableName = toLowerCase model \<or> transformTableName nm tableName = model)
        then Some (tableName, ''model '' @ transformTableName nm tableName @ '' {'')
      else find_table nm entries model)"

definition map_annotation :: "naming \<Rightarrow> cursor \<Rightarrow> string list" where
  "map_annotation nm st =
     (case currentTable st of
        None \<Rightarrow> []
      | Some t \<Rightarrow>
          if t \<noteq> [] \<and> transformTableName nm t \<noteq> t
          then [''  @@map('' @ [dq] @ t @ [dq] @ '')''] else [])"

definition header_step ::
  "naming \<Rightarrow> smap \<Rightarrow> cursor \<Rightarrow> string \<Rightarrow> string list \<Rightarrow> string \<Rightarrow> cursor \<times> string list" where
  "header_step nm tableMap st line rest model =
     (case lookahead rest of
        Some found \<Rightarrow>
          (st\<lparr>currentModel := Some model, inModelBlock := True, tableHasMap := True,
              currentTable := (case found of Some n \<Rightarrow> Some n | None \<Rightarrow> currentTable st)\<rparr>,
           [line])
      | None \<Rightarrow>
          (case find_table nm tableMap model of
             Some (tableName, header) \<Rightarrow>
               (st\<lparr>currentModel := Some model, inModelBlock := True, tableHasMap := False,
                   currentTable := Some tableName\<rparr>,
                header # map_annotation nm (st\<lparr>currentTable := Some tableName\<rparr>))
           | None \<Rightarrow>
               (if model \<noteq> [] then
                  (st\<lparr>currentModel := Some model, inModelBlock := True, tableHasMap := False,
                      currentTable := Some (toLowerCase model)\<rparr>,
                   line # map_annotation nm (st\<lparr>currentTable := Some (toLowerCase model)\<rparr>))
                else
                  (st\<lparr>currentModel := Some model, inModelBlock := True, tableHasMap := False\<rparr>,
                   line # map_annotation nm st))))"

text \<open>
  A line inside a block that is no header, closing brace or directive. When the field
  expression matches, the trimmed line starts with a word character, so the two further
  tests of the source (no comment line, no empty line) hold.
\<close>

definition field_step :: "naming \<Rightarrow> smap \<Rightarrow> string \<Rightarrow> string \<Rightarrow> string" where
  "field_step nm columnMap tbl line =
     (case field_match (trim line) of
        None \<Rightarrow> line
      | Some (fieldName, fieldRest) \<Rightarrow>
          if \<not> includes_str fieldRest ''@map('' \<and> shouldTransform fieldName
             \<and> camelCase nm fieldName \<noteq> fieldName
          then replace_field line fieldName
                 (get_or columnMap (column_key tbl fieldName) (camelCase nm fieldName))
               @ '' @map('' @ [dq] @ fieldName @ [dq] @ '')''
          else line)"

text \<open>
  One turn of the loop over the lines: the raw line and the lines after it (for the
  look-ahead) give the new cursor and the lines pushed to the output.
\<close>

definition step ::
  "naming \<Rightarrow> smap \<Rightarrow> smap \<Rightarrow> cursor \<Rightarrow> string \<Rightarrow> string list \<Rightarrow> cursor \<times> string list" where
  "step nm tableMap columnMap st raw rest =
     (case model_match (trim (trimEnd raw)) of
        Some model \<Rightarrow> header_step nm tableMap st (trimEnd raw) rest model
      | None \<Rightarrow>
          if inModelBlock st \<and> trim (trimEnd raw) = ''}'' then
            (st\<lparr>inModelBlock := False, currentModel := None, currentTable := None\<rparr>,
             [trimEnd raw])
          else if inModelBlock st \<and> truthy (currentTable st)
                  \<and> directive_gate (trim (trimEnd raw)) then
            (st, [transformDirectiveFields nm (trimEnd raw) columnMap (the (currentTable st))])
          else if inModelBlock st \<and> truthy (currentModel st) \<and> truthy (currentTable st) then
            (st, [field_step nm columnMap (the (currentTable st)) (trimEnd raw)])
          else (st, [trimEnd raw]))"

fun walk :: "naming \<Rightarrow> smap \<Rightarrow> smap \<Rightarrow> cursor \<Rightarrow> string list \<Rightarrow> string list" where
  "walk nm tableMap columnMap st [] = []"
| "walk nm tableMap columnMap st (l # ls) =
     snd (step nm tableMap columnMap st l ls)
       @ walk nm tableMap columnMap (fst (step nm tableMap columnMap st l ls)) ls"


text \<open>
  The transformation: the table names and the (table, column) pairs of the catalog and
  the schema text give the enhanced schema text.
\<close>

definition convertToCamelAndPascal ::
  "naming \<Rightarrow> string list \<Rightarrow> (string \<times> string) list \<Rightarrow> string \<Rightarrow> string" where
  "convertToCamelAndPascal nm tables columns originalSchema =
     join_nl (walk nm (build_table_map nm tables) (build_column_map nm columns) init_cursor
                (split_nl originalSchema))"

section \<open>Notions used in the statements\<close>

text \<open>
  A field line is its indentation, the field name, the white space after the name and
  the content after that white space; the annotation the walker appends names the raw
  field.
\<close>

definition indent_of :: "string \<Rightarrow> string" where
  "indent_of line = takeWhile is_space line"

definition separator_of :: "string \<Rightarrow> string" where
  "separator_of line = takeWhile is_space (dropWhile is_word (dropWhile is_space line))"

definition content_of :: "string \<Rightarrow> string" where
  "content_of line = dropWhile is_space (dropWhile is_word (dropWhile is_space line))"

definition field_annotation :: "string \<Rightarrow> string" where
  "field_annotation fieldName = '' @map('' @ [dq] @ fieldName @ [dq] @ '')''"


text \<open>A cursor inside the block of a model \<^verbatim>\<open>Item\<close> mapped to the table \<^verbatim>\<open>items\<close>.\<close>

definition item_cursor :: cursor where
  "item_cursor =
     \<lparr>currentModel = Some ''Item'', currentTable = Some ''items'', inModelBlock = True,
      tableHasMap = True\<rparr>"

text \<open>
  The three tests the walker makes on an entry of the table map, and the entry the
  catalog builder makes for a table name.
\<close>

definition entry_matches :: "naming \<Rightarrow> string \<times> string \<Rightarrow> string \<Rightarrow> bool" where
  "entry_matches nm entry model =
     (snd entry = model \<or> fst entry = toLowerCase model
      \<or> transformTableName nm (fst entry) = model)"

definition table_entry :: "naming \<Rightarrow> string \<Rightarrow> string \<times> string" where
  "table_entry nm tableName = (tableName, transformTableName nm tableName)"


section \<open>Evaluating the model\<close>

lemmas char_defs = dq_def sq_def backtick_def nl_def is_upper_def is_lower_def is_digit_def
  is_word_def is_space_def is_line_term_def is_quote_def lower_char_def upper_char_def
  toLowerCase_def digit_val_def

lemmas str_defs = trimEnd_def trim_def startsWith_def find_sub_def includes_str_def
  replace_str_def

lemmas walker_defs = shouldTransform_def transformTableName_def column_key_def
  add_table_def add_column_def
  build_table_map_def build_column_map_def get_or_def model_match_def db_name_at_def
  db_name_match_def directive_gate_def directive_name_def directive_at_def directive_match_def
  match_params_def field_match_def replace_field_def transformDirectiveFields_def
  init_cursor_def truthy_def map_annotation_def header_step_def field_step_def step_def
  convertToCamelAndPascal_def

lemmas aux_defs = indent_of_def separator_of_def content_of_def field_annotation_def
  item_cursor_def

lemmas spec_naming_defs = spec_naming_def spec_camelCase_def spec_pascalCase_def
  spec_singular_def capitalize_def

section \<open>Characters, prefixes and templates\<close>

lemma space_not_word: "is_space c \<Longrightarrow> \<not> is_word c"
  by (auto simp: is_space_def is_word_def is_lower_def is_upper_def is_digit_def)



lemma trimEnd_idem: "trimEnd (trimEnd s) = trimEnd s"
  by (simp add: trimEnd_def)

lemma trim_trimEnd: "trim (trimEnd s) = dropWhile is_space (trimEnd s)"
  by (simp add: trim_def trimEnd_idem)

lemma strip_prefix_iff: "strip_prefix p s = Some r \<longleftrightarrow> s = p @ r"
  by (induction p s rule: strip_prefix.induct) auto

lemma strip_prefix_takeWhile: "strip_prefix (takeWhile P s) s = Some (dropWhile P s)"
  by (simp add: strip_prefix_iff)




lemma field_match_facts:
  assumes "field_match s = Some (f, r)"
  shows "f = takeWhile is_word s" and "f \<noteq> []"
    and "takeWhile is_space (dropWhile is_word s) \<noteq> []"
    and "r = takeWhile (\<lambda>c. \<not> is_line_term c) (dropWhile is_space (dropWhile is_word s))"
  using assms by (auto simp: field_match_def split: if_splits)

lemma field_match_head:
  assumes "field_match s = Some (f, r)"
  obtains c cs where "s = c # cs" and "is_word c"
proof (cases s)
  case Nil
  with assms show ?thesis by (simp add: field_match_def)
next
  case (Cons c cs)
  with assms have "is_word c" by (auto simp: field_match_def split: if_splits)
  with Cons that show ?thesis by blast
qed

lemma field_match_not_close: "field_match s = Some (f, r) \<Longrightarrow> s \<noteq> ''}''"
  by (erule field_match_head) (auto simp: is_word_def is_lower_def is_upper_def is_digit_def)

lemma field_match_not_directive: "field_match s = Some (f, r) \<Longrightarrow> \<not> directive_gate s"
  by (erule field_match_head)
     (auto simp: directive_gate_def startsWith_def is_word_def is_lower_def is_upper_def
        is_digit_def)

lemma model_match_facts:
  assumes "model_match s = Some m"
  shows "takeWhile is_word s = ''model''" and "m \<noteq> []"
proof -
  from assms obtain r1 where s: "s = ''model'' @ r1" and sp: "takeWhile is_space r1 \<noteq> []"
    by (auto simp: model_match_def strip_prefix_iff split: option.splits if_splits)
  from sp obtain c cs where r1: "r1 = c # cs" and "is_space c"
    by (cases r1) (auto split: if_splits)
  then have "\<not> is_word c" by (simp add: space_not_word)
  with s r1 show "takeWhile is_word s = ''model''"
    by (simp add: is_word_def is_lower_def)
  from assms show "m \<noteq> []"
    by (auto simp: model_match_def split: option.splits if_splits list.splits)
qed



section \<open>Lines of the walker\<close>


lemma step_field_line:
  assumes fm: "field_match (trim (trimEnd raw)) = Some (f, r)"
    and nh: "model_match (trim (trimEnd raw)) = None"
  shows "step nm tm cm st raw rest =
           (st, [if inModelBlock st \<and> truthy (currentModel st) \<and> truthy (currentTable st)
                 then field_step nm cm (the (currentTable st)) (trimEnd raw)
                 else trimEnd raw])"
  using field_match_not_close [OF fm] field_match_not_directive [OF fm] nh
  by (simp add: step_def)



lemma field_line_split:
  assumes "field_match (dropWhile is_space line) = Some (f, r)"
  shows "line = indent_of line @ f @ separator_of line @ content_of line"
proof -
  have "line = takeWhile is_space line @ dropWhile is_space line" by simp
  also have "dropWhile is_space line =
      takeWhile is_word (dropWhile is_space line) @ dropWhile is_word (dropWhile is_space line)"
    by simp
  also have "dropWhile is_word (dropWhile is_space line) =
      separator_of line @ content_of line"
    by (simp add: separator_of_def content_of_def)
  finally show ?thesis
    using field_match_facts(1) [OF assms] by (simp add: indent_of_def)
qed

lemma replace_field_shape:
  assumes "field_match (dropWhile is_space line) = Some (f, r)"
  shows "replace_field line f mapped =
           get_substitution (indent_of line @ f @ separator_of line) [] (content_of line)
             [indent_of line] (''$1'' @ mapped @ '' '') @ content_of line"
proof -
  have f: "f = takeWhile is_word (dropWhile is_space line)"
    by (rule field_match_facts(1) [OF assms])
  have sp: "takeWhile is_space (dropWhile is_word (dropWhile is_space line)) \<noteq> []"
    by (rule field_match_facts(3) [OF assms])
  have "strip_prefix f (dropWhile is_space line) = Some (dropWhile is_word (dropWhile is_space line))"
    unfolding f by (rule strip_prefix_takeWhile)
  with sp show ?thesis
    by (simp add: replace_field_def indent_of_def separator_of_def content_of_def
          del: get_substitution.simps)
qed


lemma field_step_renamed:
  assumes "field_match (trim line) = Some (f, r)" and "\<not> includes_str r ''@map(''"
    and "shouldTransform f" and "camelCase nm f \<noteq> f"
  shows "field_step nm cm t line =
           replace_field line f (get_or cm (column_key t f) (camelCase nm f))
             @ field_annotation f"
  using assms by (simp add: field_step_def field_annotation_def)

lemma field_step_kept:
  assumes "field_match (trim line) = Some (f, r)"
    and "includes_str r ''@map('' \<or> \<not> shouldTransform f"
  shows "field_step nm cm t line = line"
  using assms by (auto simp: field_step_def)













section \<open>The table map\<close>

lemma find_table_match:
  assumes "entry_matches nm (k, v) m" and "m \<noteq> []"
  shows "\<exists>h. find_table nm ((k, v) # es) m = Some (k, h)"
  using assms by (auto simp: entry_matches_def)

lemma find_table_entry_match:
  assumes "entry_matches nm (table_entry nm t) m" and "m \<noteq> []"
  shows "find_table nm (table_entry nm t # es) m
           = Some (t, ''model '' @ transformTableName nm t @ '' {'')"
  using assms by (auto simp: entry_matches_def table_entry_def)

lemma find_table_no_match:
  assumes "\<not> entry_matches nm (k, v) m"
  shows "find_table nm ((k, v) # es) m = find_table nm es m"
  using assms by (auto simp: entry_matches_def)

lemma find_table_skip:
  "\<forall>x\<in>set xs. \<not> entry_matches nm x m \<Longrightarrow> find_table nm (xs @ ys) m = find_table nm ys m"
proof (induction xs)
  case Nil
  show ?case by simp
next
  case (Cons x xs)
  obtain k v where x: "x = (k, v)" by (cases x)
  with Cons.prems have "\<not> entry_matches nm (k, v) m" by simp
  then have "find_table nm ((k, v) # (xs @ ys)) m = find_table nm (xs @ ys) m"
    by (rule find_table_no_match)
  with Cons x show ?case by simp
qed

lemma find_table_append_Some:
  "find_table nm xs m = Some r \<Longrightarrow> find_table nm (xs @ ys) m = Some r"
  by (induction nm xs m rule: find_table.induct) (auto split: if_splits)

lemma map_set_canonical:
  "\<forall>e\<in>set m. snd e = transformTableName nm (fst e) \<Longrightarrow>
   map_set t (transformTableName nm t) m
     = (if t \<in> fst ` set m then m else m @ [table_entry nm t])"
proof (induction m)
  case Nil
  show ?case by (simp add: table_entry_def)
next
  case (Cons e m)
  obtain k v where e: "e = (k, v)" by (cases e)
  with Cons.prems have v: "v = transformTableName nm k" by simp
  from Cons have ih: "map_set t (transformTableName nm t) m
     = (if t \<in> fst ` set m then m else m @ [table_entry nm t])" by simp
  show ?case
  proof (cases "k = t")
    case True
    with e v show ?thesis by simp
  next
    case False
    with e ih show ?thesis by simp
  qed
qed

lemma add_table_cases:
  assumes "\<forall>e\<in>set m. snd e = transformTableName nm (fst e)"
  shows "add_table nm m t
           = (if shouldTransform t \<and> t \<notin> fst ` set m then m @ [table_entry nm t] else m)"
  using map_set_canonical [OF assms, of t] by (simp add: add_table_def)

lemma add_table_canonical:
  assumes "\<forall>e\<in>set m. snd e = transformTableName nm (fst e)"
  shows "\<forall>e\<in>set (add_table nm m t). snd e = transformTableName nm (fst e)"
  using assms by (simp add: add_table_cases [OF assms] table_entry_def)

lemma find_table_stable:
  "\<forall>e\<in>set acc. snd e = transformTableName nm (fst e) \<Longrightarrow> find_table nm acc m = Some r \<Longrightarrow>
   find_table nm (foldl (add_table nm) acc ts) m = Some r"
proof (induction ts arbitrary: acc)
  case Nil
  then show ?case by simp
next
  case (Cons t ts)
  have c: "\<forall>e\<in>set (add_table nm acc t). snd e = transformTableName nm (fst e)"
    by (rule add_table_canonical [OF Cons.prems(1)])
  have "find_table nm (add_table nm acc t) m = Some r"
    using Cons.prems(2) by (simp add: add_table_cases [OF Cons.prems(1)] find_table_append_Some)
  with Cons.IH [OF c] show ?case by simp
qed

lemma find_table_foldl:
  assumes m: "m \<noteq> []"
    and e: "shouldTransform e" "entry_matches nm (table_entry nm e) m"
  shows "\<forall>x\<in>set acc. snd x = transformTableName nm (fst x) \<Longrightarrow>
    \<forall>x\<in>set acc. \<not> entry_matches nm x m \<Longrightarrow>
    \<forall>x\<in>set pre. \<not> (shouldTransform x \<and> entry_matches nm (table_entry nm x) m) \<Longrightarrow>
    find_table nm (foldl (add_table nm) acc (pre @ e # post)) m
      = Some (e, ''model '' @ transformTableName nm e @ '' {'')"
proof (induction pre arbitrary: acc)
  case Nil
  have "e \<notin> fst ` set acc"
  proof
    assume "e \<in> fst ` set acc"
    then obtain x where x: "x \<in> set acc" "fst x = e" by auto
    with Nil(1) have "x = table_entry nm e" by (cases x) (auto simp: table_entry_def)
    with x(1) have "table_entry nm e \<in> set acc" by simp
    with Nil(2) have "\<not> entry_matches nm (table_entry nm e) m" by (rule bspec)
    with e(2) show False by simp
  qed
  with e(1) have a: "add_table nm acc e = acc @ [table_entry nm e]"
    by (simp add: add_table_cases [OF Nil(1)])
  have "find_table nm (acc @ [table_entry nm e]) m =
      Some (e, ''model '' @ transformTableName nm e @ '' {'')"
    using find_table_skip [OF Nil(2)] find_table_entry_match [OF e(2) m] by simp
  moreover have "\<forall>x\<in>set (acc @ [table_entry nm e]). snd x = transformTableName nm (fst x)"
    using Nil(1) by (simp add: table_entry_def)
  ultimately show ?case using a by (simp add: find_table_stable)
next
  case (Cons x pre)
  have c: "\<forall>y\<in>set (add_table nm acc x). snd y = transformTableName nm (fst y)"
    by (rule add_table_canonical [OF Cons.prems(1)])
  have n: "\<forall>y\<in>set (add_table nm acc x). \<not> entry_matches nm y m"
    using Cons.prems(2,3) by (simp add: add_table_cases [OF Cons.prems(1)])
  from Cons.prems(3) have
    "\<forall>y\<in>set pre. \<not> (shouldTransform y \<and> entry_matches nm (table_entry nm y) m)" by simp
  from Cons.IH [OF c n this] show ?case by simp
qed

section \<open>The look-ahead\<close>

lemma search_found: "m s \<noteq> None \<Longrightarrow> search m s \<noteq> None"
  by (cases s) auto

lemma search_at_head: "m s = Some r \<Longrightarrow> search m s = Some ([], r)"
  by (cases s) auto

lemma search_append_found: "m s \<noteq> None \<Longrightarrow> search m (p @ s) \<noteq> None"
proof (induction p)
  case Nil
  then show ?case by (simp add: search_found)
next
  case (Cons c p)
  then show ?case by (auto split: option.splits)
qed

lemma includes_str_append: "includes_str (p @ pat @ s) pat"
  by (simp add: includes_str_def find_sub_def search_append_found strip_prefix_iff)

lemma search_skip:
  "\<forall>i<length p. m (drop i p @ s) = None \<Longrightarrow>
   map_option snd (search m (p @ s)) = map_option snd (search m s)"
proof (induction p)
  case Nil
  show ?case by simp
next
  case (Cons c p)
  from Cons.prems have h: "m (c # p @ s) = None" by fastforce
  have "\<forall>i<length p. m (drop i p @ s) = None"
  proof (intro allI impI)
    fix i assume "i < length p"
    then have "Suc i < length (c # p)" by simp
    with Cons.prems have "m (drop (Suc i) (c # p) @ s) = None" by blast
    then show "m (drop i p @ s) = None" by simp
  qed
  with Cons.IH have "map_option snd (search m (p @ s)) = map_option snd (search m s)" by simp
  with h show ?case by (cases "search m (p @ s)") auto
qed

lemma db_name_at_space: "is_space c \<Longrightarrow> db_name_at (c # s) = None"
  by (auto simp: db_name_at_def is_space_def)

lemma db_name_match_indent:
  assumes "\<forall>c\<in>set indent. is_space c"
  shows "db_name_match (indent @ s) = db_name_match s"
  unfolding db_name_match_def
proof (rule search_skip, intro allI impI)
  fix i assume i: "i < length indent"
  then obtain c cs where d: "drop i indent = c # cs"
    by (cases "drop i indent") auto
  then have "c \<in> set (drop i indent)" by simp
  then have "c \<in> set indent" by (rule in_set_dropD)
  with assms have "is_space c" by simp
  with d show "db_name_at (drop i indent @ s) = None" by (simp add: db_name_at_space)
qed

lemma quote_not_space: "is_quote c \<Longrightarrow> \<not> is_space c"
  by (auto simp: is_quote_def is_space_def dq_def sq_def)

lemma db_name_at_spelling:
  assumes sp: "\<forall>c\<in>set ws1. is_space c" "\<forall>c\<in>set ws2. is_space c"
    and q: "is_quote q1" "is_quote q2"
    and name: "name \<noteq> []" "\<forall>c\<in>set name. \<not> is_quote c"
  shows "db_name_at (''@map('' @ ws1 @ q1 # name @ q2 # ws2 @ '')'' @ tail) = Some name"
proof -
  have 1: "dropWhile is_space (ws1 @ q1 # name @ q2 # ws2 @ '')'' @ tail)
      = q1 # name @ q2 # ws2 @ '')'' @ tail"
    using sp(1) quote_not_space [OF q(1)] by simp
  have 2: "takeWhile (\<lambda>c. \<not> is_quote c) (name @ q2 # ws2 @ '')'' @ tail) = name"
    using name(2) q(2) by simp
  have 3: "dropWhile (\<lambda>c. \<not> is_quote c) (name @ q2 # ws2 @ '')'' @ tail)
      = q2 # ws2 @ '')'' @ tail"
    using name(2) q(2) by simp
  have 4: "dropWhile is_space (ws2 @ '')'' @ tail) = '')'' @ tail"
    using sp(2) by (simp add: is_space_def)
  have 5: "dropWhile is_space (''('' @ ws1 @ q1 # name @ q2 # ws2 @ '')'' @ tail)
      = ''('' @ ws1 @ q1 # name @ q2 # ws2 @ '')'' @ tail"
    by (simp add: is_space_def)
  show ?thesis
    using 1 2 3 4 5 q(1) name(1) by (simp add: db_name_at_def)
qed

lemma db_name_match_spelling:
  assumes sp: "\<forall>c\<in>set indent. is_space c" "\<forall>c\<in>set ws1. is_space c" "\<forall>c\<in>set ws2. is_space c"
    and q: "is_quote q1" "is_quote q2"
    and name: "name \<noteq> []" "\<forall>c\<in>set name. \<not> is_quote c"
  shows "db_name_match (indent @ ''@@map('' @ ws1 @ q1 # name @ q2 # ws2 @ '')'' @ tail)
           = Some name"
proof -
  let ?s = "''@map('' @ ws1 @ q1 # name @ q2 # ws2 @ '')'' @ tail"
  have a: "db_name_at ?s = Some name"
    by (rule db_name_at_spelling [OF sp(2,3) q name])
  have b: "db_name_at (CHR ''@'' # ?s) = None" by (simp add: db_name_at_def)
  have "search db_name_at (CHR ''@'' # ?s) = Some ([CHR ''@''], name)"
  proof -
    have "search db_name_at ?s = Some ([], name)"
      using a by (rule search_at_head)
    with b show ?thesis by simp
  qed
  then have "db_name_match (CHR ''@'' # ?s) = Some name" by (simp add: db_name_match_def)
  then have "db_name_match (indent @ CHR ''@'' # ?s) = Some name"
    by (simp only: db_name_match_indent [OF sp(1)])
  then show ?thesis by simp
qed

lemma trimEnd_keeps:
  assumes "\<not> is_space c"
  shows "trimEnd (a @ c # b) = a @ c # trimEnd b"
proof -
  have "dropWhile is_space (rev b @ c # rev a) = dropWhile is_space (rev b) @ c # rev a"
    using assms by (simp add: dropWhile_append)
  then show ?thesis by (simp add: trimEnd_def)
qed

lemma trim_indent:
  assumes "\<forall>x\<in>set indent. is_space x" and "\<not> is_space c"
  shows "trim (indent @ c # b) = c # trimEnd b"
  using assms by (simp add: trim_def trimEnd_keeps)

lemma lookahead_skip:
  "\<forall>x\<in>set pre. \<not> startsWith (trim x) ''}'' \<and> \<not> includes_str x ''@@map('' \<Longrightarrow>
   lookahead (pre @ ls) = lookahead ls"
  by (induction pre) simp_all

lemma lookahead_spelling:
  assumes pre: "\<forall>x\<in>set pre. \<not> startsWith (trim x) ''}'' \<and> \<not> includes_str x ''@@map(''"
    and sp: "\<forall>c\<in>set indent. is_space c" "\<forall>c\<in>set ws1. is_space c" "\<forall>c\<in>set ws2. is_space c"
    and q: "is_quote q1" "is_quote q2"
    and name: "name \<noteq> []" "\<forall>c\<in>set name. \<not> is_quote c"
  shows "lookahead (pre @ (indent @ ''@@map('' @ ws1 @ q1 # name @ q2 # ws2 @ '')'' @ tail)
                      # post) = Some (Some name)"
proof -
  let ?l = "indent @ ''@@map('' @ ws1 @ q1 # name @ q2 # ws2 @ '')'' @ tail"
  have "trim ?l = CHR ''@'' # trimEnd (''@map('' @ ws1 @ q1 # name @ q2 # ws2 @ '')'' @ tail)"
    using trim_indent [OF sp(1), of "CHR ''@''"] by (simp add: is_space_def)
  then have a: "\<not> startsWith (trim ?l) ''}''" by (simp add: startsWith_def)
  have b: "includes_str ?l ''@@map(''"
    using includes_str_append [of indent "''@@map(''"] by simp
  have c: "db_name_match ?l = Some name"
    by (rule db_name_match_spelling [OF sp q name])
  from a b c show ?thesis by (simp add: lookahead_skip [OF pre] del: append.simps)
qed

section \<open>Column lookups\<close>

lemma get_or_cong:
  "map_of cm' k = map_of cm k \<Longrightarrow> get_or cm' k d = get_or cm k d"
  by (simp add: get_or_def)

lemma rewrite_fields_cong:
  assumes "\<forall>f. map_of cm' (column_key t f) = map_of cm (column_key t f)"
  shows "rewrite_fields nm cm' t toks acc = rewrite_fields nm cm t toks acc"
proof (induction toks arbitrary: acc)
  case Nil
  show ?case by simp
next
  case (Cons tok toks)
  obtain f p where tok: "tok = (f, p)" by (cases tok)
  from assms have "map_of cm' (column_key t f) = map_of cm (column_key t f)" by simp
  then have "get_or cm' (column_key t f) (camelCase nm f)
      = get_or cm (column_key t f) (camelCase nm f)"
    by (rule get_or_cong)
  with tok Cons show ?case by simp
qed

lemma transformDirectiveFields_cong:
  assumes "\<forall>f. map_of cm' (column_key t f) = map_of cm (column_key t f)"
  shows "transformDirectiveFields nm line cm' t = transformDirectiveFields nm line cm t"
  by (simp add: transformDirectiveFields_def rewrite_fields_cong [OF assms]
        split: option.splits)

lemma field_step_cong:
  assumes "\<forall>f. map_of cm' (column_key t f) = map_of cm (column_key t f)"
  shows "field_step nm cm' t line = field_step nm cm t line"
proof -
  have "\<And>f. get_or cm' (column_key t f) (camelCase nm f)
      = get_or cm (column_key t f) (camelCase nm f)"
  proof (rule get_or_cong)
    fix f
    from assms show "map_of cm' (column_key t f) = map_of cm (column_key t f)" by simp
  qed
  then show ?thesis by (simp add: field_step_def split: option.splits prod.splits)
qed

lemma step_cong:
  assumes "currentTable st = Some t"
    and "\<forall>f. map_of cm' (column_key t f) = map_of cm (column_key t f)"
  shows "step nm tm cm' st x rest = step nm tm cm st x rest"
proof (cases "model_match (trim (trimEnd x))")
  case None
  have "the (currentTable st) = t" using assms(1) by simp
  with None show ?thesis
    by (simp add: step_def transformDirectiveFields_cong [OF assms(2)]
          field_step_cong [OF assms(2)])
next
  case (Some m)
  then show ?thesis by (simp add: step_def)
qed

section \<open>The end-to-end scenario\<close>

text \<open>
  C1. With the catalog table \<^verbatim>\<open>order_items\<close> and its column \<^verbatim>\<open>user_id\<close>, the three lines
  \<^verbatim>\<open>model order_items {\<close>, \<^verbatim>\<open>  user_id Int\<close>, \<^verbatim>\<open>}\<close> become the four lines
  \<^verbatim>\<open>model OrderItem {\<close>, \<^verbatim>\<open>  @@map("order_items")\<close>, \<^verbatim>\<open>  userId Int @map("user_id")\<close>,
  \<^verbatim>\<open>}\<close>: the header is rewritten, the table annotation comes right after it, and the
  field is renamed and annotated. The imported transformers are only asked for what they
  do on the three names of the scenario.
\<close>

theorem end_to_end_scenario:
  assumes "singular nm ''order_items'' = ''order_item''"
    and "pascalCase nm ''order_item'' = ''OrderItem''"
    and "camelCase nm ''user_id'' = ''userId''"
  shows "convertToCamelAndPascal nm [''order_items''] [(''order_items'', ''user_id'')]
           (join_nl [''model order_items {'', ''  user_id Int'', ''}''])
         = join_nl [''model OrderItem {'',
                    ''  @@map('' @ [dq] @ ''order_items'' @ [dq] @ '')'',
                    ''  userId Int @map('' @ [dq] @ ''user_id'' @ [dq] @ '')'',
                    ''}'']"
  using assms by (simp add: char_defs str_defs walker_defs)

theorem end_to_end_scenario_witness:
  "convertToCamelAndPascal spec_naming [''order_items''] [(''order_items'', ''user_id'')]
     (join_nl [''model order_items {'', ''  user_id Int'', ''}''])
   = join_nl [''model OrderItem {'',
              ''  @@map('' @ [dq] @ ''order_items'' @ [dq] @ '')'',
              ''  userId Int @map('' @ [dq] @ ''user_id'' @ [dq] @ '')'',
              ''}'']"
proof -
  have 1: "singular spec_naming ''order_items'' = ''order_item''" by code_simp
  have 2: "pascalCase spec_naming ''order_item'' = ''OrderItem''" by code_simp
  have 3: "camelCase spec_naming ''user_id'' = ''userId''" by code_simp
  show ?thesis by (rule end_to_end_scenario [OF 1 2 3])
qed

section \<open>Substitution inside a directive list\<close>

text \<open>
  C2. The claim: for a flagged token of the bracketed list, the rewriter replaces exactly
  the occurrence that was matched, so no other token is touched; in \<^verbatim>\<open>[a_bMixed, a_b]\<close>
  only the second token changes. The rewriter replaces the first occurrence of the
  token's text in the list built so far: on \<^verbatim>\<open>@@index([a_bMixed, a_b])\<close> it rewrites
  inside the first token and leaves the second, the one that was matched, as it was.
\<close>

theorem directive_first_occurrence:
  assumes "camelCase nm ''a_b'' = ''aB''"
  shows "transformDirectiveFields nm ''  @@index([a_bMixed, a_b])'' [] ''t''
         = ''  @@index([aBMixed, a_b])''"
  using assms by (simp add: char_defs str_defs walker_defs)

theorem directive_first_occurrence_witness:
  "transformDirectiveFields spec_naming ''  @@index([a_bMixed, a_b])'' [] ''t''
   = ''  @@index([aBMixed, a_b])''"
proof -
  have 1: "camelCase spec_naming ''a_b'' = ''aB''" by code_simp
  show ?thesis by (rule directive_first_occurrence [OF 1])
qed

section \<open>An explicit table mapping\<close>

text \<open>
  The contiguous spelling is recognised. Let the first line after a model header that
  contains the text \<^verbatim>\<open>@@map(\<close>, before any line that starts with a closing brace, be
  indentation, \<^verbatim>\<open>@@map(\<close>, optional white space, a quote (single or double), a name
  without quotes, a quote, optional white space, a closing parenthesis, anything. Then
  the name becomes the current table name, the header line is emitted as it is and
  nothing is looked up in the table catalog, whatever it contains.
\<close>

lemma contiguous_annotation_recognised:
  assumes hdr: "model_match (trim (trimEnd raw)) = Some m"
    and rest: "rest = pre @ l # post"
    and pre: "\<forall>x\<in>set pre. \<not> startsWith (trim x) ''}'' \<and> \<not> includes_str x ''@@map(''"
    and l: "l = indent @ ''@@map('' @ ws1 @ q1 # name @ q2 # ws2 @ '')'' @ tail"
    and sp: "\<forall>c\<in>set indent. is_space c" "\<forall>c\<in>set ws1. is_space c" "\<forall>c\<in>set ws2. is_space c"
    and q: "is_quote q1" "is_quote q2"
    and name: "name \<noteq> []" "\<forall>c\<in>set name. \<not> is_quote c"
  shows "step nm tm cm st raw rest =
           (st\<lparr>currentModel := Some m, inModelBlock := True, tableHasMap := True,
               currentTable := Some name\<rparr>, [trimEnd raw])"
proof -
  have "lookahead rest = Some (Some name)"
    unfolding rest l by (rule lookahead_spelling [OF pre sp q name])
  with hdr show ?thesis by (simp add: step_def header_step_def)
qed

text \<open>
  C3. The claim: a block that contains an annotation line \<^verbatim>\<open>@@map("<rawTableName>")\<close>, in
  any white-space tolerant spelling, takes that raw name as its current table name,
  with no resolution against the catalog, and uses it for every column lookup of the
  block. The expression that extracts the name does accept white space between
  \<^verbatim>\<open>@map\<close> and the parenthesis, but the look-ahead first asks the line to contain the
  text \<^verbatim>\<open>@@map(\<close>. So for the line \<^verbatim>\<open>  @@map ("legacy_tbl")\<close> the expression gives
  \<^verbatim>\<open>legacy_tbl\<close>, the test fails, the block of \<^verbatim>\<open>model Foo {\<close> is resolved against the
  catalog, the current table name is \<^verbatim>\<open>foo\<close>, and a second table annotation is
  synthesized in front of the one the block has.
\<close>

theorem spaced_annotation_not_recognised:
  assumes "singular nm ''foo'' = ''foo''"
    and "pascalCase nm ''foo'' = ''Foo''"
    and "camelCase nm ''user_id'' = ''userId''"
  shows "db_name_match (''  @@map ('' @ [dq] @ ''legacy_tbl'' @ [dq] @ '')'') = Some ''legacy_tbl''
         \<and> lookahead [''  @@map ('' @ [dq] @ ''legacy_tbl'' @ [dq] @ '')'', ''  user_id Int'', ''}'']
             = None
         \<and> step nm (build_table_map nm [''foo''])
               (build_column_map nm [(''foo'', ''user_id''), (''legacy_tbl'', ''user_id'')])
               init_cursor ''model Foo {''
               [''  @@map ('' @ [dq] @ ''legacy_tbl'' @ [dq] @ '')'', ''  user_id Int'', ''}'']
             = (\<lparr>currentModel = Some ''Foo'', currentTable = Some ''foo'', inModelBlock = True,
                 tableHasMap = False\<rparr>,
                [''model Foo {'', ''  @@map('' @ [dq] @ ''foo'' @ [dq] @ '')''])
         \<and> convertToCamelAndPascal nm [''foo'']
               [(''foo'', ''user_id''), (''legacy_tbl'', ''user_id'')]
               (join_nl [''model Foo {'', ''  @@map ('' @ [dq] @ ''legacy_tbl'' @ [dq] @ '')'',
                         ''  user_id Int'', ''}''])
             = join_nl [''model Foo {'',
                        ''  @@map('' @ [dq] @ ''foo'' @ [dq] @ '')'',
                        ''  @@map ('' @ [dq] @ ''legacy_tbl'' @ [dq] @ '')'',
                        ''  userId Int @map('' @ [dq] @ ''user_id'' @ [dq] @ '')'',
                        ''}'']"
  using assms by (simp add: char_defs str_defs walker_defs)

theorem spaced_annotation_not_recognised_witness:
  "db_name_match (''  @@map ('' @ [dq] @ ''legacy_tbl'' @ [dq] @ '')'') = Some ''legacy_tbl''
   \<and> lookahead [''  @@map ('' @ [dq] @ ''legacy_tbl'' @ [dq] @ '')'', ''  user_id Int'', ''}'']
       = None
   \<and> step spec_naming (build_table_map spec_naming [''foo''])
         (build_column_map spec_naming [(''foo'', ''user_id''), (''legacy_tbl'', ''user_id'')])
         init_cursor ''model Foo {''
         [''  @@map ('' @ [dq] @ ''legacy_tbl'' @ [dq] @ '')'', ''  user_id Int'', ''}'']
       = (\<lparr>currentModel = Some ''Foo'', currentTable = Some ''foo'', inModelBlock = True,
           tableHasMap = False\<rparr>,
          [''model Foo {'', ''  @@map('' @ [dq] @ ''foo'' @ [dq] @ '')''])
   \<and> convertToCamelAndPascal spec_naming [''foo'']
         [(''foo'', ''user_id''), (''legacy_tbl'', ''user_id'')]
         (join_nl [''model Foo {'', ''  @@map ('' @ [dq] @ ''legacy_tbl'' @ [dq] @ '')'',
                   ''  user_id Int'', ''}''])
       = join_nl [''model Foo {'',
                  ''  @@map('' @ [dq] @ ''foo'' @ [dq] @ '')'',
                  ''  @@map ('' @ [dq] @ ''legacy_tbl'' @ [dq] @ '')'',
                  ''  userId Int @map('' @ [dq] @ ''user_id'' @ [dq] @ '')'',
                  ''}'']"
proof -
  have 1: "singular spec_naming ''foo'' = ''foo''" by code_simp
  have 2: "pascalCase spec_naming ''foo'' = ''Foo''" by code_simp
  have 3: "camelCase spec_naming ''user_id'' = ''userId''" by code_simp
  show ?thesis by (rule spaced_annotation_not_recognised [OF 1 2 3])
qed

section \<open>What a line keeps\<close>




section \<open>Parameter suffixes\<close>

text \<open>The example of the header comment of the script: one token, with a sort parameter.\<close>

lemma directive_parameter_example:
  assumes "camelCase nm ''field_name'' = ''fieldName''"
  shows "transformDirectiveFields nm ''  @@index([field_name(sort: Desc)])'' [] ''t''
         = ''  @@index([fieldName(sort: Desc)])''"
  using assms by (simp add: char_defs str_defs walker_defs)

text \<open>
  C5. The claim: a rewritten token is the mapped name followed by the parameter suffix,
  copied verbatim. The suffix goes through the replacement template of
  \<^verbatim>\<open>String.prototype.replace\<close>, so \<^verbatim>\<open>a_b($$)\<close> becomes \<^verbatim>\<open>aB($)\<close>; and since the first
  occurrence of a token's text is replaced, the later token \<^verbatim>\<open>user_id\<close> is rewritten
  inside the parameter text of \<^verbatim>\<open>user_name(ops: raw("user_id"))\<close>.
\<close>

theorem directive_parameter_altered:
  assumes "camelCase nm ''a_b'' = ''aB''"
    and "camelCase nm ''user_name'' = ''userName''"
    and "camelCase nm ''user_id'' = ''userId''"
  shows "transformDirectiveFields nm ''  @@index([a_b($$)])'' [] ''t''
           = ''  @@index([aB($)])''
         \<and> transformDirectiveFields nm
             (''  @@index([user_name(ops: raw('' @ [dq] @ ''user_id'' @ [dq] @ '')), user_id])'')
             [] ''t''
           = ''  @@index([userName(ops: raw('' @ [dq] @ ''userId'' @ [dq] @ '')), user_id])''"
  using assms by (simp add: char_defs str_defs walker_defs)

theorem directive_parameter_altered_witness:
  "transformDirectiveFields spec_naming ''  @@index([a_b($$)])'' [] ''t''
     = ''  @@index([aB($)])''
   \<and> transformDirectiveFields spec_naming
       (''  @@index([user_name(ops: raw('' @ [dq] @ ''user_id'' @ [dq] @ '')), user_id])'')
       [] ''t''
     = ''  @@index([userName(ops: raw('' @ [dq] @ ''userId'' @ [dq] @ '')), user_id])''"
proof -
  have 1: "camelCase spec_naming ''a_b'' = ''aB''" by code_simp
  have 2: "camelCase spec_naming ''user_name'' = ''userName''" by code_simp
  have 3: "camelCase spec_naming ''user_id'' = ''userId''" by code_simp
  show ?thesis by (rule directive_parameter_altered [OF 1 2 3])
qed

section \<open>Identifiers with an upper-case character\<close>




section \<open>A second pass\<close>

text \<open>
  C7. The claim: the transformation applied to its own output changes nothing. After
  the first pass over a block with \<^verbatim>\<open>@@index([a_bMixed, a_b])\<close> the list is
  \<^verbatim>\<open>[aBMixed, a_b]\<close>; the second pass, with the same catalog, turns it into
  \<^verbatim>\<open>[aBMixed, aB]\<close>.
\<close>

theorem second_pass_changes_output:
  assumes "singular nm ''item'' = ''item''"
    and "pascalCase nm ''item'' = ''Item''"
    and "camelCase nm ''a_b'' = ''aB''"
  shows "convertToCamelAndPascal nm [] []
           (join_nl [''model Item {'', ''  @@index([a_bMixed, a_b])'', ''}''])
         = join_nl [''model Item {'', ''  @@map('' @ [dq] @ ''item'' @ [dq] @ '')'',
                    ''  @@index([aBMixed, a_b])'', ''}'']
         \<and> convertToCamelAndPascal nm [] []
             (join_nl [''model Item {'', ''  @@map('' @ [dq] @ ''item'' @ [dq] @ '')'',
                       ''  @@index([aBMixed, a_b])'', ''}''])
           = join_nl [''model Item {'', ''  @@map('' @ [dq] @ ''item'' @ [dq] @ '')'',
                      ''  @@index([aBMixed, aB])'', ''}'']"
  using assms by (simp add: char_defs str_defs walker_defs)

theorem second_pass_changes_output_witness:
  "convertToCamelAndPascal spec_naming [] []
     (join_nl [''model Item {'', ''  @@index([a_bMixed, a_b])'', ''}''])
   = join_nl [''model Item {'', ''  @@map('' @ [dq] @ ''item'' @ [dq] @ '')'',
              ''  @@index([aBMixed, a_b])'', ''}'']
   \<and> convertToCamelAndPascal spec_naming [] []
       (join_nl [''model Item {'', ''  @@map('' @ [dq] @ ''item'' @ [dq] @ '')'',
                 ''  @@index([aBMixed, a_b])'', ''}''])
     = join_nl [''model Item {'', ''  @@map('' @ [dq] @ ''item'' @ [dq] @ '')'',
                ''  @@index([aBMixed, aB])'', ''}'']"
proof -
  have 1: "singular spec_naming ''item'' = ''item''" by code_simp
  have 2: "pascalCase spec_naming ''item'' = ''Item''" by code_simp
  have 3: "camelCase spec_naming ''a_b'' = ''aB''" by code_simp
  show ?thesis by (rule second_pass_changes_output [OF 1 2 3])
qed

section \<open>The cursor of the pass\<close>




section \<open>Several catalog tables for one model\<close>

text \<open>
  C9. When the block of a model header has no line with \<^verbatim>\<open>@@map(\<close>, the walker takes the
  first table of the catalog, in catalog order, that is flagged and passes one of the
  three tests (transformed value equal to the model name, raw name equal to the
  lower-cased model name, transformed raw name equal to the model name): all three are
  tried on an entry before the next entry is looked at. So a later table that passes the
  first test loses to an earlier one that passes only the second.
\<close>

theorem first_matching_table_wins:
  assumes "model_match (trim (trimEnd raw)) = Some m" and "lookahead rest = None"
    and "tables = pre @ e # post"
    and "shouldTransform e" and "entry_matches nm (table_entry nm e) m"
    and "\<forall>x\<in>set pre. \<not> (shouldTransform x \<and> entry_matches nm (table_entry nm x) m)"
  shows "currentTable (fst (step nm (build_table_map nm tables) cm st raw rest)) = Some e
         \<and> hd (snd (step nm (build_table_map nm tables) cm st raw rest))
             = ''model '' @ transformTableName nm e @ '' {''"
proof -
  have m: "m \<noteq> []" by (rule model_match_facts(2) [OF assms(1)])
  have "find_table nm (foldl (add_table nm) [] (pre @ e # post)) m
      = Some (e, ''model '' @ transformTableName nm e @ '' {'')"
    by (rule find_table_foldl [OF m assms(4,5) _ _ assms(6)]) simp_all
  then have "find_table nm (build_table_map nm tables) m
      = Some (e, ''model '' @ transformTableName nm e @ '' {'')"
    by (simp add: build_table_map_def assms(3))
  with assms(1,2) show ?thesis by (simp add: step_def header_step_def)
qed

theorem first_matching_table_wins_witness:
  "transformTableName spec_naming ''u_s_e_r'' = ''USER''
   \<and> transformTableName spec_naming ''user'' = ''User''
   \<and> step spec_naming (build_table_map spec_naming [''user'', ''u_s_e_r'']) [] init_cursor
       ''model USER {'' [''}'']
     = (\<lparr>currentModel = Some ''USER'', currentTable = Some ''user'', inModelBlock = True,
         tableHasMap = False\<rparr>,
        [''model User {'', ''  @@map('' @ [dq] @ ''user'' @ [dq] @ '')''])"
proof -
  let ?tm = "build_table_map spec_naming [''user'', ''u_s_e_r'']"
  have 1: "model_match (trim (trimEnd ''model USER {'')) = Some ''USER''"
    by (simp add: char_defs str_defs walker_defs)
  have 2: "lookahead [''}''] = None" by (simp add: char_defs str_defs)
  have 3: "[''user'', ''u_s_e_r''] = [] @ ''user'' # [''u_s_e_r'']" by simp
  have 4: "shouldTransform ''user''" by (simp add: char_defs walker_defs)
  have 5: "entry_matches spec_naming (table_entry spec_naming ''user'') ''USER''"
    by (simp add: entry_matches_def table_entry_def char_defs)
  have 6: "\<forall>x\<in>set []. \<not> (shouldTransform x
      \<and> entry_matches spec_naming (table_entry spec_naming x) ''USER'')" by simp
  have t: "transformTableName spec_naming ''u_s_e_r'' = ''USER''"
    "transformTableName spec_naming ''user'' = ''User''"
    by (simp_all add: char_defs walker_defs spec_naming_defs)
  from first_matching_table_wins [OF 1 2 3 4 5 6, of "[]" init_cursor]
  have "currentTable (fst (step spec_naming ?tm [] init_cursor ''model USER {'' [''}'']))
      = Some ''user''"
    by blast
  moreover have "step spec_naming ?tm [] init_cursor ''model USER {'' [''}'']
     = (\<lparr>currentModel = Some ''USER'',
         currentTable = currentTable
           (fst (step spec_naming ?tm [] init_cursor ''model USER {'' [''}''])),
         inModelBlock = True, tableHasMap = False\<rparr>,
        [''model User {'', ''  @@map('' @ [dq] @ ''user'' @ [dq] @ '')''])"
    by (simp add: char_defs str_defs walker_defs spec_naming_defs)
  ultimately show ?thesis using t by simp
qed

section \<open>Where the field annotation goes\<close>

text \<open>
  C10. For a field line inside a block: when the field is renamed, the emitted line ends
  with the annotation, right after the whole content that followed the field name and
  its white space on the input line (a trailing comment included, so the annotation is
  inside that comment); when the rest of the line contains \<^verbatim>\<open>@map(\<close> anywhere, the line
  is emitted without rename and without annotation.
\<close>

theorem field_annotation_placement:
  assumes blk: "inModelBlock st" "truthy (currentModel st)" "currentTable st = Some t" "t \<noteq> []"
    and nh: "model_match (trim (trimEnd raw)) = None"
    and fm: "field_match (trim (trimEnd raw)) = Some (f, r)"
  shows "(\<not> includes_str r ''@map('' \<and> shouldTransform f \<and> camelCase nm f \<noteq> f \<longrightarrow>
            trimEnd raw = indent_of (trimEnd raw) @ f @ separator_of (trimEnd raw)
                            @ content_of (trimEnd raw)
            \<and> (\<exists>body. step nm tm cm st raw rest =
                  (st, [body @ content_of (trimEnd raw) @ field_annotation f])))
         \<and> (includes_str r ''@map('' \<longrightarrow> step nm tm cm st raw rest = (st, [trimEnd raw]))"
proof -
  have tr: "truthy (currentTable st)" using blk by (simp add: truthy_def)
  have fm': "field_match (dropWhile is_space (trimEnd raw)) = Some (f, r)"
    using fm by (simp add: trim_trimEnd)
  have st: "step nm tm cm st raw rest = (st, [field_step nm cm t (trimEnd raw)])"
    using blk tr by (simp add: step_field_line [OF fm nh])
  show ?thesis
  proof (intro conjI impI)
    assume "\<not> includes_str r ''@map('' \<and> shouldTransform f \<and> camelCase nm f \<noteq> f"
    then have "field_step nm cm t (trimEnd raw) =
        replace_field (trimEnd raw) f (get_or cm (column_key t f) (camelCase nm f))
          @ field_annotation f"
      using field_step_renamed [OF fm] by blast
    then show "\<exists>body. step nm tm cm st raw rest =
        (st, [body @ content_of (trimEnd raw) @ field_annotation f])"
      by (simp add: st replace_field_shape [OF fm'] del: get_substitution.simps)
  next
    show "trimEnd raw = indent_of (trimEnd raw) @ f @ separator_of (trimEnd raw)
                            @ content_of (trimEnd raw)"
      by (rule field_line_split [OF fm'])
  next
    assume "includes_str r ''@map(''"
    then show "step nm tm cm st raw rest = (st, [trimEnd raw])"
      using field_step_kept [OF fm] by (simp add: st)
  qed
qed

theorem field_annotation_placement_witness:
  "(\<exists>body. step spec_naming [] [] item_cursor ''  user_id Int // the user'' []
      = (item_cursor, [body @ ''Int // the user'' @ field_annotation ''user_id'']))
   \<and> step spec_naming [] [] item_cursor ''  user_id Int // see @map(x)'' []
     = (item_cursor, [''  user_id Int // see @map(x)''])"
proof -
  let ?raw = "''  user_id Int // the user''" and ?raw2 = "''  user_id Int // see @map(x)''"
  have blk: "inModelBlock item_cursor" "truthy (currentModel item_cursor)"
    "currentTable item_cursor = Some ''items''" "''items'' \<noteq> []"
    by (simp_all add: item_cursor_def truthy_def)
  have fm: "field_match (trim (trimEnd ?raw)) = Some (''user_id'', ''Int // the user'')"
    by (simp add: char_defs str_defs walker_defs)
  have nh: "model_match (trim (trimEnd ?raw)) = None"
    by (simp add: char_defs str_defs walker_defs)
  have fm2: "field_match (trim (trimEnd ?raw2)) = Some (''user_id'', ''Int // see @map(x)'')"
    by (simp add: char_defs str_defs walker_defs)
  have nh2: "model_match (trim (trimEnd ?raw2)) = None"
    by (simp add: char_defs str_defs walker_defs)
  have pre: "\<not> includes_str ''Int // the user'' ''@map('' \<and> shouldTransform ''user_id''
      \<and> camelCase spec_naming ''user_id'' \<noteq> ''user_id''"
    by (simp add: char_defs str_defs walker_defs spec_naming_defs)
  have pre2: "includes_str ''Int // see @map(x)'' ''@map(''"
    by (simp add: char_defs str_defs)
  have e: "content_of (trimEnd ?raw) = ''Int // the user''" "trimEnd ?raw2 = ?raw2"
    by (simp_all add: aux_defs char_defs str_defs)
  from field_annotation_placement [OF blk nh fm, where nm = spec_naming and tm = "[]"
      and cm = "[]" and rest = "[]"] pre
  have "\<exists>body. step spec_naming [] [] item_cursor ?raw []
      = (item_cursor, [body @ content_of (trimEnd ?raw) @ field_annotation ''user_id''])"
    by blast
  moreover from field_annotation_placement [OF blk nh2 fm2, where nm = spec_naming
      and tm = "[]" and cm = "[]" and rest = "[]"] pre2
  have "step spec_naming [] [] item_cursor ?raw2 [] = (item_cursor, [trimEnd ?raw2])"
    by blast
  ultimately show ?thesis by (simp only: e)
qed

end
